theory Spec2Isabelle
  imports Main
begin

section \<open>SimpleSearchEngine: an inverted index over a document store\<close>

text \<open>
  A shallow embedding of \<^verbatim>\<open>src/search_engine.py\<close> (class \<^verbatim>\<open>SimpleSearchEngine\<close>).

  Strings. A Python \<^verbatim>\<open>str\<close> is modelled as a \<^typ>\<open>string\<close> whose characters are ASCII
  code points: \<^verbatim>\<open>str.lower\<close> and \<^verbatim>\<open>str.upper\<close> change the letters A-Z and a-z only, and
  whitespace (for \<^verbatim>\<open>str.strip\<close>, \<^verbatim>\<open>str.split\<close> and the regular expression class
  \<^verbatim>\<open>\s\<close>) is what \<^verbatim>\<open>str.isspace\<close> accepts below 128: the code points 9-13, 28-31 and 32.
  Texts with characters beyond ASCII are outside the model.

  Output. The \<^verbatim>\<open>print\<close> calls of \<^verbatim>\<open>add_document\<close> and \<^verbatim>\<open>delete_document\<close> write to
  standard output and touch no field of the engine; they are left out.
\<close>

subsection \<open>Characters and strings\<close>

definition is_space :: "char \<Rightarrow> bool" where
  "is_space c = (let n = (of_char c :: nat) in (9 \<le> n \<and> n \<le> 13) \<or> (28 \<le> n \<and> n \<le> 32))"

definition is_az :: "char \<Rightarrow> bool" where
  "is_az c = (let n = (of_char c :: nat) in 97 \<le> n \<and> n \<le> 122)"

definition lower_char :: "char \<Rightarrow> char" where
  "lower_char c = (let n = (of_char c :: nat) in if 65 \<le> n \<and> n \<le> 90 then char_of (n + 32) else c)"

definition upper_char :: "char \<Rightarrow> char" where
  "upper_char c = (let n = (of_char c :: nat) in if 97 \<le> n \<and> n \<le> 122 then char_of (n - 32) else c)"

text \<open>\<^verbatim>\<open>s.lower()\<close>, \<^verbatim>\<open>s.upper()\<close> and \<^verbatim>\<open>s.strip()\<close>.\<close>

definition lower :: "string \<Rightarrow> string" where
  "lower s = map lower_char s"

definition upper :: "string \<Rightarrow> string" where
  "upper s = map upper_char s"

definition strip :: "string \<Rightarrow> string" where
  "strip s = rev (dropWhile is_space (rev (dropWhile is_space s)))"

text \<open>\<^verbatim>\<open>sep in s\<close>: the separator occurs somewhere in \<open>s\<close> as a contiguous substring.\<close>

fun contains :: "string \<Rightarrow> string \<Rightarrow> bool" where
  "contains sep [] = (sep = [])"
| "contains sep (c # cs) = (take (length sep) (c # cs) = sep \<or> contains sep cs)"

text \<open>
  \<^verbatim>\<open>s.split(sep)\<close> for a non-empty separator: the string is scanned from the left, cut at
  each occurrence of the separator, and the scan goes on behind that occurrence; \<open>acc\<close> is
  the segment read so far, in reverse. (Python raises \<^verbatim>\<open>ValueError\<close> for an empty separator;
  the engine only ever splits on the two literals below.)
\<close>

function split_from :: "string \<Rightarrow> string \<Rightarrow> string \<Rightarrow> string list" where
  "split_from sep acc [] = [rev acc]"
| "split_from sep acc (c # cs) =
     (if sep \<noteq> [] \<and> take (length sep) (c # cs) = sep
      then rev acc # split_from sep [] (drop (length sep) (c # cs))
      else split_from sep (c # acc) cs)"
  by pat_completeness auto
termination
  by (relation "measure (\<lambda>(sep, acc, s). length s)") auto

definition split_sep :: "string \<Rightarrow> string \<Rightarrow> string list" where
  "split_sep sep s = split_from sep [] s"

text \<open>
  \<^verbatim>\<open>s.split()\<close> without a separator: runs of whitespace separate the words, and no word
  is empty; \<open>acc\<close> is the word read so far, in reverse.
\<close>

fun split_ws_from :: "string \<Rightarrow> string \<Rightarrow> string list" where
  "split_ws_from acc [] = (if acc = [] then [] else [rev acc])"
| "split_ws_from acc (c # cs) =
     (if is_space c
      then (if acc = [] then split_ws_from [] cs else rev acc # split_ws_from [] cs)
      else split_ws_from (c # acc) cs)"

definition split_ws :: "string \<Rightarrow> string list" where
  "split_ws s = split_ws_from [] s"

subsection \<open>The tokenizer\<close>

text \<open>
  \<^verbatim>\<open>_tokenize\<close>: \<^verbatim>\<open>re.sub(r'[^a-z\s]', '', text.lower())\<close> deletes every character that is
  neither a lowercase letter nor whitespace, then \<^verbatim>\<open>split()\<close> cuts at whitespace.
\<close>

definition tokenize :: "string \<Rightarrow> string list" where
  "tokenize text = split_ws (filter (\<lambda>c. is_az c \<or> is_space c) (lower text))"

subsection \<open>Reading the query\<close>

datatype operator = AND | OR

text \<open>
  Lines 80-91 of \<^verbatim>\<open>search\<close>: the query is trimmed and uppercased, and that string is both
  searched for the operator and split at it.
\<close>

definition query_terms :: "string \<Rightarrow> operator \<times> string list" where
  "query_terms q =
     (let query = upper (strip q) in
      if contains '' AND '' query
      then (AND, map (\<lambda>term. lower (strip term)) (split_sep '' AND '' query))
      else if contains '' OR '' query
      then (OR, map (\<lambda>term. lower (strip term)) (split_sep '' OR '' query))
      else (AND, tokenize query))"

subsection \<open>The engine's state\<close>

text \<open>
  The inverted index is a dictionary whose values are mutable \<^verbatim>\<open>set\<close> objects: the code
  updates them in place (\<^verbatim>\<open>add\<close>, \<^verbatim>\<open>discard\<close>, \<^verbatim>\<open>intersection_update\<close>, \<^verbatim>\<open>update\<close>) and
  hands references to them around. The model therefore keeps the set objects in a store:
  a reference is the address of a set object, \<open>sets\<close> gives the contents of each object,
  and \<open>next_ref\<close> is the first address not yet given out. The index maps a term to a
  reference.
\<close>

type_synonym ref = nat

record engine =
  documents :: "int \<rightharpoonup> string"
  inverted_index :: "string \<rightharpoonup> ref"
  next_doc_id :: int
  sets :: "ref \<Rightarrow> int set"
  next_ref :: ref

text \<open>\<^verbatim>\<open>__init__\<close>: both dictionaries empty, the counter 0.\<close>

definition init_engine :: engine where
  "init_engine =
     \<lparr>documents = Map.empty, inverted_index = Map.empty, next_doc_id = 0,
      sets = (\<lambda>_. {}), next_ref = 0\<rparr>"

text \<open>\<^verbatim>\<open>set()\<close>: a new, empty set object.\<close>

definition new_set :: "engine \<Rightarrow> ref \<times> engine" where
  "new_set s =
     (next_ref s, s\<lparr>sets := (sets s)(next_ref s := {}), next_ref := Suc (next_ref s)\<rparr>)"

text \<open>\<^verbatim>\<open>r.copy()\<close>: a new set object with the contents of \<open>r\<close>.\<close>

definition copy_set :: "ref \<Rightarrow> engine \<Rightarrow> ref \<times> engine" where
  "copy_set r s =
     (next_ref s, s\<lparr>sets := (sets s)(next_ref s := sets s r), next_ref := Suc (next_ref s)\<rparr>)"

text \<open>The posting set of a term, as an observer sees it: empty when the term is no key.\<close>

definition posting :: "engine \<Rightarrow> string \<Rightarrow> int set" where
  "posting s t = (case inverted_index s t of None \<Rightarrow> {} | Some r \<Rightarrow> sets s r)"

subsection \<open>delete\_document\<close>

text \<open>
  The body of the loop of \<^verbatim>\<open>delete_document\<close> (lines 66-70): \<^verbatim>\<open>discard\<close> the document from
  the term's set and delete the term when its set has become empty.
\<close>

definition unindex_token :: "int \<Rightarrow> string \<Rightarrow> engine \<Rightarrow> engine" where
  "unindex_token doc_id token s =
     (case inverted_index s token of
        None \<Rightarrow> s
      | Some r \<Rightarrow>
          (let s1 = s\<lparr>sets := (sets s)(r := sets s r - {doc_id})\<rparr> in
           if sets s1 r = {}
           then s1\<lparr>inverted_index := (inverted_index s1)(token := None)\<rparr>
           else s1))"

text \<open>
  \<^verbatim>\<open>set(self._tokenize(text))\<close> is iterated in an order Python does not fix; the model
  iterates the tokens without their repetitions, in the order of their first occurrence.
\<close>

definition delete_document :: "int \<Rightarrow> engine \<Rightarrow> bool \<times> engine" where
  "delete_document doc_id s =
     (case documents s doc_id of
        None \<Rightarrow> (False, s)
      | Some text \<Rightarrow>
          (let s1 = s\<lparr>documents := (documents s)(doc_id := None)\<rparr>;
               tokens = remdups (tokenize text)
           in (True, fold (unindex_token doc_id) tokens s1)))"

subsection \<open>add\_document\<close>

text \<open>
  The body of the loop of \<^verbatim>\<open>add_document\<close> (lines 48-50). Line 50 looks the term up
  again; after lines 48-49 it is a key, so the \<open>None\<close> branch of that lookup (a
  \<^verbatim>\<open>KeyError\<close>) is never taken.
\<close>

definition index_token :: "int \<Rightarrow> string \<Rightarrow> engine \<Rightarrow> engine" where
  "index_token doc_id token s =
     (let s1 = (case inverted_index s token of
                  None \<Rightarrow>
                    (let (r, s') = new_set s
                     in s'\<lparr>inverted_index := (inverted_index s')(token \<mapsto> r)\<rparr>)
                | Some _ \<Rightarrow> s)
      in case inverted_index s1 token of
           None \<Rightarrow> s1
         | Some r \<Rightarrow> s1\<lparr>sets := (sets s1)(r := insert doc_id (sets s1 r))\<rparr>)"

definition add_document :: "string \<Rightarrow> int option \<Rightarrow> engine \<Rightarrow> int \<times> engine" where
  "add_document text doc_id_opt s =
     (let (doc_id, s1) =
            (case doc_id_opt of
               None \<Rightarrow> (next_doc_id s, s\<lparr>next_doc_id := next_doc_id s + 1\<rparr>)
             | Some d \<Rightarrow> (d, s));
          s2 = (if doc_id \<in> dom (documents s1) then snd (delete_document doc_id s1) else s1);
          s3 = s2\<lparr>documents := (documents s2)(doc_id \<mapsto> text)\<rparr>;
          tokens = remdups (tokenize text)
      in (doc_id, fold (index_token doc_id) tokens s3))"

subsection \<open>search\<close>

text \<open>
  \<^verbatim>\<open>self.inverted_index.get(term, set())\<close>: the default argument is evaluated before the
  lookup, so a new empty set is made in either case.
\<close>

definition get_or_empty :: "string \<Rightarrow> engine \<Rightarrow> ref \<times> engine" where
  "get_or_empty term s =
     (let (r0, s1) = new_set s
      in (case inverted_index s1 term of None \<Rightarrow> r0 | Some r \<Rightarrow> r, s1))"

text \<open>
  The body of the two loops over \<^verbatim>\<open>terms[1:]\<close> (lines 104-106 and 109-111):
  \<^verbatim>\<open>intersection_update\<close> or \<^verbatim>\<open>update\<close> of the object \<open>result_set\<close>, in place.
\<close>

definition combine :: "operator \<Rightarrow> ref \<Rightarrow> string \<Rightarrow> engine \<Rightarrow> engine" where
  "combine operator result_set term s =
     (let (doc_ids, s1) = get_or_empty term s
      in s1\<lparr>sets := (sets s1)(result_set :=
               (case operator of
                  AND \<Rightarrow> sets s1 result_set \<inter> sets s1 doc_ids
                | OR \<Rightarrow> sets s1 result_set \<union> sets s1 doc_ids))\<rparr>)"

text \<open>
  Lines 93-120: the evaluation of a list of terms under an operator. The result is the
  dictionary \<open>found_documents\<close>, the documents of the store whose ID is in \<open>result_set\<close>
  (as a map: the order of a dictionary's entries is not modelled).
\<close>

definition evaluate :: "operator \<Rightarrow> string list \<Rightarrow> engine \<Rightarrow> (int \<rightharpoonup> string) \<times> engine" where
  "evaluate operator terms s =
     (case terms of
        [] \<Rightarrow> (Map.empty, s)
      | first_term # rest \<Rightarrow>
          (let (r0, s1) = get_or_empty first_term s;
               (result_set, s2) = copy_set r0 s1;
               s3 = fold (combine operator result_set) rest s2
           in (documents s3 |` sets s3 result_set, s3)))"

definition search :: "string \<Rightarrow> engine \<Rightarrow> (int \<rightharpoonup> string) \<times> engine" where
  "search q s = (let (operator, terms) = query_terms q in evaluate operator terms s)"

subsection \<open>Sequences of calls\<close>

datatype call = Add string "int option" | Delete int | Search string

fun step :: "call \<Rightarrow> engine \<Rightarrow> engine" where
  "step (Add text doc_id_opt) s = snd (add_document text doc_id_opt s)"
| "step (Delete doc_id) s = snd (delete_document doc_id s)"
| "step (Search q) s = snd (search q s)"

text \<open>The state after a sequence of calls, the first call first.\<close>

definition run :: "call list \<Rightarrow> engine \<Rightarrow> engine" where
  "run calls s = fold step calls s"

subsection \<open>Predicates of the specification\<close>

text \<open>
  The set objects of the index are well placed: every reference in the index has been
  given out by the allocator, and no two terms share a set object.
\<close>

definition heap_ok :: "engine \<Rightarrow> bool" where
  "heap_ok s \<longleftrightarrow>
     (\<forall>t r. inverted_index s t = Some r \<longrightarrow> r < next_ref s) \<and>
     (\<forall>t t' r. inverted_index s t = Some r \<longrightarrow> inverted_index s t' = Some r \<longrightarrow> t = t')"

text \<open>The invariants I1 and I2 of the specification, over the posting sets.\<close>

definition I1 :: "engine \<Rightarrow> bool" where
  "I1 s \<longleftrightarrow>
     (\<forall>t d. d \<in> posting s t \<longleftrightarrow> (\<exists>text. documents s d = Some text \<and> t \<in> set (tokenize text)))"

definition I2 :: "engine \<Rightarrow> bool" where
  "I2 s \<longleftrightarrow> (\<forall>t r. inverted_index s t = Some r \<longrightarrow> sets s r \<noteq> {})"

definition engine_inv :: "engine \<Rightarrow> bool" where
  "engine_inv s \<longleftrightarrow> heap_ok s \<and> I1 s \<and> I2 s"

text \<open>
  Lines 38-53 of \<^verbatim>\<open>add_document\<close> as one state transformer, once the ID is known; the
  lemmas \<open>add_document_auto\<close> and \<open>add_document_explicit\<close> relate it to \<open>add_document\<close>.
\<close>

definition store_document :: "int \<Rightarrow> string \<Rightarrow> engine \<Rightarrow> engine" where
  "store_document d body s =
     fold (index_token d) (remdups (tokenize body))
       ((if d \<in> dom (documents s) then snd (delete_document d s) else s)
          \<lparr>documents := (documents (if d \<in> dom (documents s) then snd (delete_document d s) else s))(d \<mapsto> body)\<rparr>)"

text \<open>
  What a search may change: set objects at the addresses from \<open>n\<close> on, and the
  allocation counter.
\<close>

definition frame :: "ref \<Rightarrow> engine \<Rightarrow> engine \<Rightarrow> bool" where
  "frame n s s' \<longleftrightarrow>
     documents s' = documents s \<and> inverted_index s' = inverted_index s \<and>
     next_doc_id s' = next_doc_id s \<and> next_ref s \<le> next_ref s' \<and>
     (\<forall>r<n. sets s' r = sets s r)"

definition refs_below :: "ref \<Rightarrow> engine \<Rightarrow> bool" where
  "refs_below n s \<longleftrightarrow> (\<forall>t r. inverted_index s t = Some r \<longrightarrow> r < n)"

text \<open>
  The IDs that the loops of \<^verbatim>\<open>search\<close> compute, as a function of the posting sets:
  intersection or union with the posting set of each further term.
\<close>

definition fold_ids :: "operator \<Rightarrow> (string \<Rightarrow> int set) \<Rightarrow> string list \<Rightarrow> int set \<Rightarrow> int set" where
  "fold_ids operator p terms ids =
     fold (\<lambda>term acc. case operator of AND \<Rightarrow> acc \<inter> p term | OR \<Rightarrow> acc \<union> p term) terms ids"

text \<open>
  The reading of a query as the specification words it (section 4.2, rule 1): the
  operator is looked for in the trimmed, uppercased query, but the \<^emph>\<open>original\<close> query is
  split at the separator. It is compared with \<open>query_terms\<close>, which follows the code.
\<close>

definition spec_query_terms :: "string \<Rightarrow> operator \<times> string list" where
  "spec_query_terms q =
     (let query = upper (strip q) in
      if contains '' AND '' query
      then (AND, map (\<lambda>term. lower (strip term)) (split_sep '' AND '' q))
      else if contains '' OR '' query
      then (OR, map (\<lambda>term. lower (strip term)) (split_sep '' OR '' q))
      else (AND, tokenize query))"

text \<open>\<^verbatim>\<open>sep.join(xs)\<close>, the inverse of \<^verbatim>\<open>split\<close>; it states what the segments of a split are.\<close>

fun join :: "string \<Rightarrow> string list \<Rightarrow> string" where
  "join sep [] = []"
| "join sep [x] = x"
| "join sep (x # y # ys) = x @ sep @ join sep (y # ys)"

text \<open>The IDs that a sequence of calls passes to \<^verbatim>\<open>add_document\<close> explicitly.\<close>

fun explicit_ids :: "call list \<Rightarrow> int list" where
  "explicit_ids [] = []"
| "explicit_ids (Add _ (Some d) # cs) = d # explicit_ids cs"
| "explicit_ids (_ # cs) = explicit_ids cs"

text \<open>
  Every key of the document store is below the auto-ID counter or is one of the IDs
  \<open>E\<close> (those passed explicitly so far).
\<close>

definition keys_accounted :: "int set \<Rightarrow> engine \<Rightarrow> bool" where
  "keys_accounted E s \<longleftrightarrow> (\<forall>d. documents s d \<noteq> None \<longrightarrow> d < next_doc_id s \<or> d \<in> E)"

section \<open>Properties\<close>

subsection \<open>Strings and tokens\<close>

lemma is_az_not_space: "is_az c \<Longrightarrow> \<not> is_space c"
  by (auto simp: is_az_def is_space_def Let_def)

lemma lower_upper_az: "is_az c \<Longrightarrow> lower_char (upper_char c) = c"
proof -
  assume a: "is_az c"
  let ?n = "of_char c :: nat"
  have r: "97 \<le> ?n" "?n \<le> 122" using a by (simp_all add: is_az_def Let_def)
  then have u: "upper_char c = char_of (?n - 32)" by (simp add: upper_char_def Let_def)
  have m: "(of_char (char_of (?n - 32) :: char) :: nat) = ?n - 32"
    using r by simp
  have k: "65 \<le> ?n - 32 \<and> ?n - 32 \<le> 90" using r by arith
  have e: "?n - 32 + 32 = ?n" using r by arith
  have "lower_char (upper_char c) = char_of (?n - 32 + 32)"
    unfolding u lower_char_def Let_def m using k by simp
  also have "\<dots> = char_of ?n" unfolding e ..
  finally show ?thesis by simp
qed

lemma upper_az_not_space: "is_az c \<Longrightarrow> \<not> is_space (upper_char c)"
proof -
  assume a: "is_az c"
  let ?n = "of_char c :: nat"
  have r: "97 \<le> ?n" "?n \<le> 122" using a by (simp_all add: is_az_def Let_def)
  then have u: "upper_char c = char_of (?n - 32)" by (simp add: upper_char_def Let_def)
  have m: "(of_char (char_of (?n - 32) :: char) :: nat) = ?n - 32"
    using r by simp
  have k: "\<not> ((9 \<le> ?n - 32 \<and> ?n - 32 \<le> 13) \<or> (28 \<le> ?n - 32 \<and> ?n - 32 \<le> 32))"
    using r by arith
  show ?thesis unfolding u is_space_def Let_def m using k by simp
qed

lemma lower_upper_token: "\<forall>c\<in>set w. is_az c \<Longrightarrow> lower (upper w) = w"
  by (induction w) (simp_all add: lower_def upper_def lower_upper_az)

lemma dropWhile_none: "\<forall>c\<in>set w. \<not> P c \<Longrightarrow> dropWhile P w = w"
  by (cases w) simp_all

lemma strip_no_space: "\<forall>c\<in>set w. \<not> is_space c \<Longrightarrow> strip w = w"
  by (simp add: strip_def dropWhile_none)

lemma contains_set: "contains sep s \<Longrightarrow> set sep \<subseteq> set s"
proof (induction s)
  case Nil
  then show ?case by simp
next
  case (Cons c cs)
  show ?case
  proof (cases "take (length sep) (c # cs) = sep")
    case True
    have "set (take (length sep) (c # cs)) \<subseteq> set (c # cs)" by (rule set_take_subset)
    then show ?thesis using True by simp
  next
    case False
    then have "contains sep cs" using Cons.prems by simp
    then show ?thesis using Cons.IH by auto
  qed
qed

lemma split_ws_from_word:
  "\<forall>c\<in>set w. \<not> is_space c \<Longrightarrow> acc \<noteq> [] \<or> w \<noteq> [] \<Longrightarrow> split_ws_from acc w = [rev acc @ w]"
  by (induction w arbitrary: acc) auto

lemma split_ws_from_tokens:
  "t \<in> set (split_ws_from acc s) \<Longrightarrow>
     t \<noteq> [] \<and> set t \<subseteq> set acc \<union> {c \<in> set s. \<not> is_space c}"
proof (induction s arbitrary: acc)
  case Nil
  then show ?case by (auto split: if_splits)
next
  case (Cons c cs)
  show ?case
  proof (cases "is_space c")
    case True
    show ?thesis
    proof (cases "t = rev acc \<and> acc \<noteq> []")
      case True
      then show ?thesis by auto
    next
      case False
      then have "t \<in> set (split_ws_from [] cs)"
        using Cons.prems \<open>is_space c\<close> by (auto split: if_splits)
      then show ?thesis using Cons.IH [of "[]"] by auto
    qed
  next
    case False
    then have "t \<in> set (split_ws_from (c # acc) cs)" using Cons.prems by simp
    then show ?thesis using Cons.IH [of "c # acc"] False by auto
  qed
qed

lemma tokenize_az:
  assumes "t \<in> set (tokenize body)"
  shows "t \<noteq> []" and "\<forall>c\<in>set t. is_az c"
proof -
  let ?s = "filter (\<lambda>c. is_az c \<or> is_space c) (lower body)"
  have "t \<in> set (split_ws_from [] ?s)"
    using assms by (simp add: tokenize_def split_ws_def)
  then have h: "t \<noteq> [] \<and> set t \<subseteq> set [] \<union> {c \<in> set ?s. \<not> is_space c}"
    by (rule split_ws_from_tokens)
  show "t \<noteq> []" using h by simp
  show "\<forall>c\<in>set t. is_az c" using h by auto
qed

lemma space_is_space: "is_space CHR '' ''"
  by (simp add: is_space_def)

lemma query_terms_token:
  assumes "w \<noteq> []" and az: "\<forall>c\<in>set w. is_az c"
  shows "query_terms w = (AND, [w])"
proof -
  have ns: "\<forall>c\<in>set w. \<not> is_space c" using az by (simp add: is_az_not_space)
  have st: "strip w = w" using ns by (rule strip_no_space)
  have uns: "\<forall>c\<in>set (upper w). \<not> is_space c"
    using az by (simp add: upper_def upper_az_not_space)
  have no_sep: "\<not> contains sep (upper w)" if "CHR '' '' \<in> set sep" for sep
  proof
    assume "contains sep (upper w)"
    then have "set sep \<subseteq> set (upper w)" by (rule contains_set)
    then have "CHR '' '' \<in> set (upper w)" using that by auto
    then show False using uns space_is_space by auto
  qed
  have a: "\<not> contains '' AND '' (upper w)" by (rule no_sep) simp
  have b: "\<not> contains '' OR '' (upper w)" by (rule no_sep) simp
  have f: "filter (\<lambda>c. is_az c \<or> is_space c) w = w" using az by (simp add: filter_id_conv)
  have "tokenize (upper w) = split_ws_from [] w"
    by (simp add: tokenize_def split_ws_def lower_upper_token [OF az] f)
  also have "\<dots> = [w]"
    using split_ws_from_word [OF ns, of "[]"] assms(1) by simp
  finally show ?thesis using a b by (simp add: query_terms_def st Let_def)
qed

subsection \<open>The index and the store of set objects\<close>

lemma heap_ok_init: "heap_ok init_engine"
  by (simp add: heap_ok_def init_engine_def)

lemma index_token_fields:
  "documents (index_token d tok s) = documents s"
  "next_doc_id (index_token d tok s) = next_doc_id s"
  by (simp_all add: index_token_def new_set_def split: option.splits)

lemma index_token_heap_ok: "heap_ok s \<Longrightarrow> heap_ok (index_token d tok s)"
  unfolding heap_ok_def index_token_def new_set_def
  by (auto split: option.splits if_splits dest: less_SucI) 

lemma index_token_posting:
  "heap_ok s \<Longrightarrow> posting (index_token d tok s) t =
     (if t = tok then insert d (posting s tok) else posting s t)"
  unfolding heap_ok_def index_token_def new_set_def posting_def
  by (auto split: option.splits if_splits)

lemma index_token_keys:
  "inverted_index (index_token d tok s) t = None \<longleftrightarrow> t \<noteq> tok \<and> inverted_index s t = None"
  unfolding index_token_def new_set_def
  by (auto split: option.splits if_splits)

lemma unindex_token_fields:
  "documents (unindex_token d tok s) = documents s"
  "next_doc_id (unindex_token d tok s) = next_doc_id s"
  by (simp_all add: unindex_token_def Let_def split: option.splits)

lemma unindex_token_heap_ok: "heap_ok s \<Longrightarrow> heap_ok (unindex_token d tok s)"
  unfolding heap_ok_def unindex_token_def
  by (auto simp: Let_def split: option.splits if_splits)

lemma unindex_token_posting:
  "heap_ok s \<Longrightarrow> posting (unindex_token d tok s) t =
     (if t = tok then posting s tok - {d} else posting s t)"
  unfolding heap_ok_def unindex_token_def posting_def
  by (auto simp: Let_def split: option.splits if_splits)

lemma unindex_token_keys:
  "inverted_index (unindex_token d tok s) t = None \<longleftrightarrow>
     inverted_index s t = None \<or> (t = tok \<and> posting s tok - {d} = {})"
  unfolding unindex_token_def posting_def
  by (auto simp: Let_def split: option.splits if_splits)

lemma fold_index_token_fields:
  "documents (fold (index_token d) toks s) = documents s"
  "next_doc_id (fold (index_token d) toks s) = next_doc_id s"
  by (induction toks arbitrary: s) (simp_all add: index_token_fields)

lemma fold_index_token_heap_ok: "heap_ok s \<Longrightarrow> heap_ok (fold (index_token d) toks s)"
  by (induction toks arbitrary: s) (simp_all add: index_token_heap_ok)

lemma fold_index_token_posting:
  "heap_ok s \<Longrightarrow> posting (fold (index_token d) toks s) t =
     (if t \<in> set toks then insert d (posting s t) else posting s t)"
  by (induction toks arbitrary: s) (auto simp: index_token_heap_ok index_token_posting)

lemma fold_index_token_keys:
  "inverted_index (fold (index_token d) toks s) t = None \<longleftrightarrow>
     t \<notin> set toks \<and> inverted_index s t = None"
  by (induction toks arbitrary: s) (auto simp: index_token_keys)

lemma fold_unindex_token_fields:
  "documents (fold (unindex_token d) toks s) = documents s"
  "next_doc_id (fold (unindex_token d) toks s) = next_doc_id s"
  by (induction toks arbitrary: s) (simp_all add: unindex_token_fields)

lemma fold_unindex_token_heap_ok: "heap_ok s \<Longrightarrow> heap_ok (fold (unindex_token d) toks s)"
  by (induction toks arbitrary: s) (simp_all add: unindex_token_heap_ok)

lemma fold_unindex_token_posting:
  "heap_ok s \<Longrightarrow> posting (fold (unindex_token d) toks s) t =
     (if t \<in> set toks then posting s t - {d} else posting s t)"
  by (induction toks arbitrary: s) (auto simp: unindex_token_heap_ok unindex_token_posting)

lemma fold_unindex_token_keys:
  "heap_ok s \<Longrightarrow> inverted_index (fold (unindex_token d) toks s) t = None \<longleftrightarrow>
     inverted_index s t = None \<or> (t \<in> set toks \<and> posting s t - {d} = {})"
proof (induction toks arbitrary: s)
  case Nil
  then show ?case by simp
next
  case (Cons tok toks)
  have ok: "heap_ok (unindex_token d tok s)"
    using Cons.prems by (rule unindex_token_heap_ok)
  show ?case
    using Cons.IH [OF ok] Cons.prems
    by (auto simp: unindex_token_keys unindex_token_posting)
qed

lemma I2_posting: "I2 s \<longleftrightarrow> (\<forall>t. inverted_index s t \<noteq> None \<longrightarrow> posting s t \<noteq> {})"
  by (auto simp: I2_def posting_def split: option.splits)

lemma inv_init: "engine_inv init_engine"
  unfolding engine_inv_def
  by (intro conjI heap_ok_init) (simp_all add: I1_def I2_def posting_def init_engine_def)

text \<open>The effect of \<^verbatim>\<open>delete_document\<close>, and the invariant across it.\<close>

lemma delete_document_absent: "documents s d = None \<Longrightarrow> delete_document d s = (False, s)"
  by (simp add: delete_document_def)

lemma delete_document_present:
  assumes "documents s d = Some text"
  shows "delete_document d s =
     (True, fold (unindex_token d) (remdups (tokenize text)) (s\<lparr>documents := (documents s)(d := None)\<rparr>))"
  using assms by (simp add: delete_document_def)

lemma heap_ok_documents_update [simp]: "heap_ok (s\<lparr>documents := m\<rparr>) = heap_ok s"
  by (simp add: heap_ok_def)

lemma heap_ok_next_doc_id_update [simp]: "heap_ok (s\<lparr>next_doc_id := n\<rparr>) = heap_ok s"
  by (simp add: heap_ok_def)

lemma posting_documents_update [simp]: "posting (s\<lparr>documents := m\<rparr>) t = posting s t"
  by (simp add: posting_def split: option.splits)

lemma posting_next_doc_id_update [simp]: "posting (s\<lparr>next_doc_id := n\<rparr>) t = posting s t"
  by (simp add: posting_def split: option.splits)

lemma delete_document_inv:
  assumes "engine_inv s"
  shows "engine_inv (snd (delete_document d s))"
proof (cases "documents s d")
  case None
  then show ?thesis using assms by (simp add: delete_document_absent)
next
  case (Some doc)
  let ?s1 = "s\<lparr>documents := (documents s)(d := None)\<rparr>"
  let ?s' = "fold (unindex_token d) (remdups (tokenize doc)) ?s1"
  have ok: "heap_ok ?s1" using assms by (simp add: engine_inv_def)
  have s': "snd (delete_document d s) = ?s'"
    using Some by (simp add: delete_document_present)
  have docs: "documents ?s' = (documents s)(d := None)"
    by (simp add: fold_unindex_token_fields)
  have post: "posting ?s' t = (if t \<in> set (tokenize doc) then posting s t - {d} else posting s t)" for t
    using ok by (simp add: fold_unindex_token_posting)
  have keys: "inverted_index ?s' t = None \<longleftrightarrow>
      inverted_index s t = None \<or> (t \<in> set (tokenize doc) \<and> posting s t - {d} = {})" for t
    using ok by (simp add: fold_unindex_token_keys)
  have i1: "I1 s" and i2: "I2 s" using assms by (simp_all add: engine_inv_def)
  have "I1 ?s'"
    unfolding I1_def
  proof (intro allI)
    fix t d'
    show "d' \<in> posting ?s' t \<longleftrightarrow>
        (\<exists>doc'. documents ?s' d' = Some doc' \<and> t \<in> set (tokenize doc'))"
    proof (cases "d' = d")
      case True
      have "d \<in> posting s t \<longleftrightarrow> t \<in> set (tokenize doc)"
        using i1 Some by (simp add: I1_def)
      then show ?thesis using True by (simp add: post docs)
    next
      case False
      have "d' \<in> posting s t \<longleftrightarrow> (\<exists>doc'. documents s d' = Some doc' \<and> t \<in> set (tokenize doc'))"
        using i1 by (simp add: I1_def)
      then show ?thesis using False by (simp add: post docs)
    qed
  qed
  moreover have "I2 ?s'"
    unfolding I2_posting
  proof (intro allI impI)
    fix t
    assume k: "inverted_index ?s' t \<noteq> None"
    then have "inverted_index s t \<noteq> None" and ne: "\<not> (t \<in> set (tokenize doc) \<and> posting s t - {d} = {})"
      by (simp_all add: keys)
    then have "posting s t \<noteq> {}" using i2 by (simp add: I2_posting)
    then show "posting ?s' t \<noteq> {}" using ne by (simp add: post)
  qed
  moreover have "heap_ok ?s'"
    using ok by (rule fold_unindex_token_heap_ok)
  ultimately show ?thesis by (simp add: engine_inv_def s')
qed

lemma add_document_auto:
  "add_document body None s =
     (next_doc_id s, store_document (next_doc_id s) body (s\<lparr>next_doc_id := next_doc_id s + 1\<rparr>))"
  by (simp add: add_document_def store_document_def Let_def)

lemma add_document_explicit:
  "add_document body (Some d) s = (d, store_document d body s)"
  by (simp add: add_document_def store_document_def Let_def)

lemma I1_next_doc_id_update [simp]: "I1 (s\<lparr>next_doc_id := n\<rparr>) = I1 s"
  by (simp add: I1_def)

lemma I2_next_doc_id_update [simp]: "I2 (s\<lparr>next_doc_id := n\<rparr>) = I2 s"
  by (simp add: I2_def)

lemma inv_next_doc_id_update [simp]: "engine_inv (s\<lparr>next_doc_id := n\<rparr>) = engine_inv s"
  by (simp add: engine_inv_def)

lemma delete_document_documents:
  "documents (snd (delete_document d s)) = (documents s)(d := None)"
proof (cases "documents s d")
  case None
  then show ?thesis by (auto simp: delete_document_absent)
next
  case (Some doc)
  then show ?thesis by (simp add: delete_document_present fold_unindex_token_fields)
qed

lemma delete_document_next_doc_id:
  "next_doc_id (snd (delete_document d s)) = next_doc_id s"
  by (cases "documents s d") (simp_all add: delete_document_def fold_unindex_token_fields)

lemma store_document_documents:
  "documents (store_document d body s) = (documents s)(d \<mapsto> body)"
  by (simp add: store_document_def fold_index_token_fields delete_document_documents)

lemma store_document_next_doc_id:
  "next_doc_id (store_document d body s) = next_doc_id s"
  by (simp add: store_document_def fold_index_token_fields delete_document_next_doc_id)

lemma store_document_inv:
  assumes "engine_inv s"
  shows "engine_inv (store_document d body s)"
proof -
  let ?s2 = "if d \<in> dom (documents s) then snd (delete_document d s) else s"
  let ?s3 = "?s2\<lparr>documents := (documents ?s2)(d \<mapsto> body)\<rparr>"
  let ?s' = "fold (index_token d) (remdups (tokenize body)) ?s3"
  have s': "store_document d body s = ?s'"
    by (simp add: store_document_def)
  have inv2: "engine_inv ?s2"
    using assms by (simp add: delete_document_inv)
  then have ok: "heap_ok ?s3" and i1: "I1 ?s2" and i2: "I2 ?s2"
    by (simp_all add: engine_inv_def)
  have absent: "documents ?s2 d = None"
    by (auto simp: delete_document_documents)
  have fresh: "d \<notin> posting ?s2 t" for t
    using i1 absent by (simp add: I1_def)
  have docs: "documents ?s' = (documents ?s2)(d \<mapsto> body)"
    by (simp add: fold_index_token_fields)
  have post: "posting ?s' t =
      (if t \<in> set (tokenize body) then insert d (posting ?s2 t) else posting ?s2 t)" for t
    using ok by (simp add: fold_index_token_posting)
  have keys: "inverted_index ?s' t = None \<longleftrightarrow>
      t \<notin> set (tokenize body) \<and> inverted_index ?s2 t = None" for t
    by (simp add: fold_index_token_keys)
  have "I1 ?s'"
    unfolding I1_def
  proof (intro allI)
    fix t d'
    show "d' \<in> posting ?s' t \<longleftrightarrow>
        (\<exists>doc'. documents ?s' d' = Some doc' \<and> t \<in> set (tokenize doc'))"
    proof (cases "d' = d")
      case True
      then show ?thesis using fresh [of t] by (simp add: post docs)
    next
      case False
      have "d' \<in> posting ?s2 t \<longleftrightarrow>
          (\<exists>doc'. documents ?s2 d' = Some doc' \<and> t \<in> set (tokenize doc'))"
        using i1 by (simp add: I1_def)
      then show ?thesis using False by (simp add: post docs)
    qed
  qed
  moreover have "I2 ?s'"
    unfolding I2_posting
  proof (intro allI impI)
    fix t
    assume k: "inverted_index ?s' t \<noteq> None"
    show "posting ?s' t \<noteq> {}"
    proof (cases "t \<in> set (tokenize body)")
      case True
      then show ?thesis by (simp add: post)
    next
      case False
      then have "inverted_index ?s2 t \<noteq> None" using k by (simp add: keys)
      then have "posting ?s2 t \<noteq> {}" using i2 by (simp add: I2_posting)
      then show ?thesis using False by (simp add: post)
    qed
  qed
  moreover have "heap_ok ?s'"
    using ok by (rule fold_index_token_heap_ok)
  ultimately show ?thesis unfolding s' engine_inv_def by simp
qed

lemma add_document_inv: "engine_inv s \<Longrightarrow> engine_inv (snd (add_document body opt s))"
  by (cases opt) (simp_all add: add_document_auto add_document_explicit store_document_inv)

lemma frame_refl: "frame n s s"
  by (simp add: frame_def)

lemma frame_trans: "frame n s s' \<Longrightarrow> frame n s' s'' \<Longrightarrow> frame n s s''"
  by (simp add: frame_def)

lemma frame_posting: "refs_below n s \<Longrightarrow> frame n s s' \<Longrightarrow> posting s' t = posting s t"
  by (auto simp: frame_def refs_below_def posting_def split: option.splits)

lemma frame_refs_below: "refs_below n s \<Longrightarrow> frame n s s' \<Longrightarrow> refs_below n s'"
  by (simp add: frame_def refs_below_def)

lemma get_or_empty_frame:
  "n \<le> next_ref s \<Longrightarrow> frame n s (snd (get_or_empty term s))"
  by (simp add: get_or_empty_def new_set_def frame_def)

lemma get_or_empty_next_ref:
  "next_ref (snd (get_or_empty term s)) = Suc (next_ref s)"
  by (simp add: get_or_empty_def new_set_def)

lemma get_or_empty_result:
  assumes "refs_below n s" "n \<le> next_ref s"
  shows "sets (snd (get_or_empty term s)) (fst (get_or_empty term s)) = posting s term"
    and "fst (get_or_empty term s) < n \<or> fst (get_or_empty term s) = next_ref s"
proof -
  show "fst (get_or_empty term s) < n \<or> fst (get_or_empty term s) = next_ref s"
    using assms(1)
    by (auto simp: get_or_empty_def new_set_def refs_below_def split: option.splits)
  show "sets (snd (get_or_empty term s)) (fst (get_or_empty term s)) = posting s term"
  proof (cases "inverted_index s term")
    case None
    then show ?thesis by (simp add: get_or_empty_def new_set_def posting_def)
  next
    case (Some r)
    then have "r < n" using assms(1) by (simp add: refs_below_def)
    then have "r \<noteq> next_ref s" using assms(2) by simp
    then show ?thesis using Some by (simp add: get_or_empty_def new_set_def posting_def)
  qed
qed

lemma combine_frame:
  assumes "refs_below n s" "n \<le> rs" "rs < next_ref s"
  shows "frame n s (combine operator rs term s)"
    and "rs < next_ref (combine operator rs term s)"
    and "sets (combine operator rs term s) rs =
           (case operator of AND \<Rightarrow> sets s rs \<inter> posting s term | OR \<Rightarrow> sets s rs \<union> posting s term)"
proof -
  obtain r s1 where g: "get_or_empty term s = (r, s1)"
    by (cases "get_or_empty term s")
  have n: "n \<le> next_ref s" using assms by simp
  have f1: "frame n s s1"
    using get_or_empty_frame [OF n, of "term"] g by simp
  have nr: "next_ref s1 = Suc (next_ref s)"
    using get_or_empty_next_ref [of "term" s] g by simp
  have r: "sets s1 r = posting s term"
    using get_or_empty_result(1) [OF assms(1) n, of "term"] g by simp
  have rs: "sets s1 rs = sets s rs"
    using assms g by (auto simp: get_or_empty_def new_set_def)
  have c: "combine operator rs term s =
      s1\<lparr>sets := (sets s1)(rs := (case operator of AND \<Rightarrow> sets s1 rs \<inter> sets s1 r
                                                | OR \<Rightarrow> sets s1 rs \<union> sets s1 r))\<rparr>"
    by (simp add: combine_def g)
  show "frame n s (combine operator rs term s)"
    using f1 assms(2) unfolding c by (auto simp: frame_def)
  show "rs < next_ref (combine operator rs term s)"
    using assms(3) nr unfolding c by simp
  show "sets (combine operator rs term s) rs =
           (case operator of AND \<Rightarrow> sets s rs \<inter> posting s term | OR \<Rightarrow> sets s rs \<union> posting s term)"
    unfolding c by (cases operator) (simp_all add: r rs)
qed

lemma fold_combine_frame:
  assumes "refs_below n s" "n \<le> rs" "rs < next_ref s"
  shows "frame n s (fold (combine operator rs) terms s) \<and>
         sets (fold (combine operator rs) terms s) rs = fold_ids operator (posting s) terms (sets s rs)"
  using assms
proof (induction terms arbitrary: s)
  case Nil
  then show ?case by (simp add: frame_refl fold_ids_def)
next
  case (Cons a terms)
  let ?s1 = "combine operator rs a s"
  have f: "frame n s ?s1" and lt: "rs < next_ref ?s1"
    and v: "sets ?s1 rs = (case operator of AND \<Rightarrow> sets s rs \<inter> posting s a | OR \<Rightarrow> sets s rs \<union> posting s a)"
    using combine_frame [OF Cons.prems] by simp_all
  have rb: "refs_below n ?s1"
    using Cons.prems(1) f by (rule frame_refs_below)
  have p: "posting ?s1 = posting s"
    using frame_posting [OF Cons.prems(1) f] by (simp add: fun_eq_iff)
  have IH: "frame n ?s1 (fold (combine operator rs) terms ?s1) \<and>
      sets (fold (combine operator rs) terms ?s1) rs =
        fold_ids operator (posting ?s1) terms (sets ?s1 rs)"
    using Cons.IH [OF rb Cons.prems(2) lt] .
  show ?case
    using IH frame_trans [OF f] by (simp add: p v fold_ids_def)
qed

lemma evaluate_Nil: "evaluate operator [] s = (Map.empty, s)"
  by (simp add: evaluate_def)

lemma evaluate_Cons:
  assumes "refs_below (next_ref s) s"
  shows "frame (next_ref s) s (snd (evaluate operator (first_term # rest) s))"
    and "fst (evaluate operator (first_term # rest) s) =
           documents s |` fold_ids operator (posting s) rest (posting s first_term)"
proof -
  let ?n = "next_ref s"
  obtain r0 s1 where g: "get_or_empty first_term s = (r0, s1)"
    by (cases "get_or_empty first_term s")
  obtain rs s2 where c: "copy_set r0 s1 = (rs, s2)"
    by (cases "copy_set r0 s1")
  let ?s3 = "fold (combine operator rs) rest s2"
  have f1: "frame ?n s s1"
    using get_or_empty_frame [of ?n s first_term] g by simp
  have nr1: "next_ref s1 = Suc ?n"
    using get_or_empty_next_ref [of first_term s] g by simp
  have r0: "sets s1 r0 = posting s first_term"
    using get_or_empty_result(1) [OF assms, of first_term] g by simp
  have rs: "rs = Suc ?n" and s2: "s2 = s1\<lparr>sets := (sets s1)(rs := sets s1 r0), next_ref := Suc rs\<rparr>"
    using c nr1 by (auto simp: copy_set_def)
  have f2: "frame ?n s s2"
    using f1 unfolding s2 rs by (auto simp: frame_def)
  have v2: "sets s2 rs = posting s first_term"
    unfolding s2 by (simp add: r0)
  have rb2: "refs_below ?n s2"
    using assms f2 by (rule frame_refs_below)
  have p2: "posting s2 = posting s"
    using frame_posting [OF assms f2] by (simp add: fun_eq_iff)
  have lt: "rs < next_ref s2" unfolding s2 by simp
  have le: "?n \<le> rs" unfolding rs by simp
  have f3: "frame ?n s2 ?s3"
    and v3: "sets ?s3 rs = fold_ids operator (posting s2) rest (sets s2 rs)"
    using fold_combine_frame [OF rb2 le lt, of operator rest] by simp_all
  have e: "evaluate operator (first_term # rest) s = (documents ?s3 |` sets ?s3 rs, ?s3)"
    by (simp add: evaluate_def g c Let_def)
  have f: "frame ?n s ?s3" using f2 f3 by (rule frame_trans)
  show "frame (next_ref s) s (snd (evaluate operator (first_term # rest) s))"
    unfolding e using f by simp
  have "documents ?s3 = documents s" using f by (simp add: frame_def)
  then show "fst (evaluate operator (first_term # rest) s) =
           documents s |` fold_ids operator (posting s) rest (posting s first_term)"
    unfolding e by (simp add: v3 v2 p2)
qed

lemma heap_ok_refs_below: "heap_ok s \<Longrightarrow> refs_below (next_ref s) s"
  by (simp add: heap_ok_def refs_below_def)

lemma evaluate_frame:
  "heap_ok s \<Longrightarrow> frame (next_ref s) s (snd (evaluate operator terms s))"
  by (cases terms) (simp_all add: evaluate_Nil frame_refl evaluate_Cons(1) heap_ok_refs_below)

lemma search_frame: "heap_ok s \<Longrightarrow> frame (next_ref s) s (snd (search q s))"
  by (simp add: search_def evaluate_frame split: prod.splits)

lemma frame_inv:
  assumes "engine_inv s" "frame (next_ref s) s s'"
  shows "engine_inv s'"
proof -
  have rb: "refs_below (next_ref s) s"
    using assms(1) by (simp add: engine_inv_def heap_ok_refs_below)
  have p: "posting s' t = posting s t" for t
    using rb assms(2) by (rule frame_posting)
  have d: "documents s' = documents s" and i: "inverted_index s' = inverted_index s"
    and n: "next_ref s \<le> next_ref s'"
    using assms(2) by (simp_all add: frame_def)
  have "heap_ok s'"
    using assms(1) n unfolding engine_inv_def heap_ok_def i by (auto intro: less_le_trans)
  moreover have "I1 s'"
    using assms(1) by (simp add: engine_inv_def I1_def p d)
  moreover have "I2 s'"
    using assms(1) by (simp add: engine_inv_def I2_posting p i)
  ultimately show ?thesis by (simp add: engine_inv_def)
qed

lemma search_inv:
  assumes "engine_inv s"
  shows "engine_inv (snd (search q s))"
proof -
  have "heap_ok s" using assms by (simp add: engine_inv_def)
  then have "frame (next_ref s) s (snd (search q s))" by (rule search_frame)
  with assms show ?thesis by (rule frame_inv)
qed

lemma step_inv: "engine_inv s \<Longrightarrow> engine_inv (step c s)"
  by (cases c) (simp_all add: add_document_inv delete_document_inv search_inv)

lemma run_inv: "engine_inv s \<Longrightarrow> engine_inv (run calls s)"
  unfolding run_def by (induction calls arbitrary: s) (simp_all add: step_inv)

lemma reachable_inv: "engine_inv (run calls init_engine)"
  by (rule run_inv [OF inv_init])

subsection \<open>Results of a search, splitting, and the counter\<close>

lemma fold_ids_AND_subset: "fold_ids AND p terms ids \<subseteq> ids"
proof (induction terms arbitrary: ids)
  case Nil
  then show ?case by (simp add: fold_ids_def)
next
  case (Cons a terms)
  have "fold_ids AND p terms (ids \<inter> p a) \<subseteq> ids \<inter> p a" by (rule Cons.IH)
  then show ?case by (auto simp: fold_ids_def)
qed

lemma fold_ids_OR_superset: "ids \<subseteq> fold_ids OR p terms ids"
proof (induction terms arbitrary: ids)
  case Nil
  then show ?case by (simp add: fold_ids_def)
next
  case (Cons a terms)
  have "ids \<union> p a \<subseteq> fold_ids OR p terms (ids \<union> p a)" by (rule Cons.IH)
  then show ?case by (auto simp: fold_ids_def)
qed

lemma split_from_not_Nil: "split_from sep acc s \<noteq> []"
  by (induction sep acc s rule: split_from.induct) auto

lemma join_Cons: "ys \<noteq> [] \<Longrightarrow> join sep (x # ys) = x @ sep @ join sep ys"
  by (cases ys) simp_all

lemma join_split_from: "join sep (split_from sep acc s) = rev acc @ s"
proof (induction sep acc s rule: split_from.induct)
  case (1 sep acc)
  then show ?case by simp
next
  case (2 sep acc c cs)
  show ?case
  proof (cases "sep \<noteq> [] \<and> take (length sep) (c # cs) = sep")
    case True
    have "join sep (split_from sep acc (c # cs)) =
        rev acc @ sep @ join sep (split_from sep [] (drop (length sep) (c # cs)))"
      using True by (simp add: join_Cons split_from_not_Nil del: join.simps)
    also have "\<dots> = rev acc @ sep @ drop (length sep) (c # cs)"
      using 2(1) True by simp
    also have "sep @ drop (length sep) (c # cs) = c # cs"
      using True append_take_drop_id [of "length sep" "c # cs"] by simp
    finally show ?thesis .
  next
    case False
    then show ?thesis using 2(2) by auto
  qed
qed

lemma join_split_sep: "join sep (split_sep sep s) = s"
  by (simp add: split_sep_def join_split_from)

lemma step_next_doc_id:
  "next_doc_id (step c s) \<ge> next_doc_id s" if "heap_ok s"
proof (cases c)
  case (Add body opt)
  then show ?thesis
    by (cases opt) (simp_all add: add_document_auto add_document_explicit store_document_next_doc_id)
next
  case (Delete d)
  then show ?thesis by (simp add: delete_document_next_doc_id)
next
  case (Search q)
  then show ?thesis using search_frame [OF that, of q] by (simp add: frame_def)
qed

lemma explicit_ids_Cons:
  "set (explicit_ids (c # cs)) = set (explicit_ids [c]) \<union> set (explicit_ids cs)"
proof (cases c)
  case (Add body opt)
  then show ?thesis by (cases opt) simp_all
next
  case (Delete d)
  then show ?thesis by simp
next
  case (Search q)
  then show ?thesis by simp
qed

lemma step_keys_accounted:
  assumes "heap_ok s" "keys_accounted E s"
  shows "keys_accounted (E \<union> set (explicit_ids [c])) (step c s)"
proof (cases c)
  case (Add body opt)
  show ?thesis
  proof (cases opt)
    case None
    then show ?thesis
      using assms(2) Add
      by (auto simp: keys_accounted_def add_document_auto store_document_documents
          store_document_next_doc_id split: if_splits)
  next
    case (Some d)
    then show ?thesis
      using assms(2) Add
      by (auto simp: keys_accounted_def add_document_explicit store_document_documents
          store_document_next_doc_id split: if_splits)
  qed
next
  case (Delete d)
  then show ?thesis
    using assms(2)
    by (auto simp: keys_accounted_def delete_document_documents delete_document_next_doc_id
        split: if_splits)
next
  case (Search q)
  then show ?thesis
    using assms(2) search_frame [OF assms(1), of q] by (simp add: keys_accounted_def frame_def)
qed

lemma run_keys_accounted:
  "engine_inv s \<Longrightarrow> keys_accounted E s \<Longrightarrow>
     keys_accounted (E \<union> set (explicit_ids calls)) (run calls s)"
proof (induction calls arbitrary: s E)
  case Nil
  then show ?case by (simp add: run_def)
next
  case (Cons c calls)
  have ok: "heap_ok s" using Cons.prems(1) by (simp add: engine_inv_def)
  have 1: "engine_inv (step c s)" using Cons.prems(1) by (rule step_inv)
  have 2: "keys_accounted (E \<union> set (explicit_ids [c])) (step c s)"
    using ok Cons.prems(2) by (rule step_keys_accounted)
  have e: "E \<union> set (explicit_ids (c # calls)) =
      (E \<union> set (explicit_ids [c])) \<union> set (explicit_ids calls)"
    using explicit_ids_Cons [of c calls] by auto
  show ?case unfolding e using Cons.IH [OF 1 2] by (simp add: run_def)
qed

subsection \<open>Claims about the invariants\<close>

text \<open>
  C3 (invariant I1). In every state reached from a fresh engine by a sequence of
  \<^verbatim>\<open>add_document\<close>, \<^verbatim>\<open>delete_document\<close> and \<^verbatim>\<open>search\<close> calls, a document ID \<open>d\<close> is in the
  posting set of a term \<open>t\<close> if and only if \<open>d\<close> is a key of the document store and \<open>t\<close> is
  among the tokens of the stored text.
\<close>

theorem index_agrees_with_store:
  "d \<in> posting (run calls init_engine) t \<longleftrightarrow>
     (\<exists>body. documents (run calls init_engine) d = Some body \<and> t \<in> set (tokenize body))"
  using reachable_inv [of calls] by (simp add: engine_inv_def I1_def)

text \<open>The invariant at the state after \<^verbatim>\<open>add_document("Hello World", doc_id=5)\<close>.\<close>

theorem index_agrees_with_store_witness:
  "5 \<in> posting (run [Add ''Hello World'' (Some 5)] init_engine) ''hello'' \<and>
   documents (run [Add ''Hello World'' (Some 5)] init_engine) 5 = Some ''Hello World'' \<and>
   ''hello'' \<in> set (tokenize ''Hello World'')"
proof -
  have d: "documents (run [Add ''Hello World'' (Some 5)] init_engine) 5 = Some ''Hello World''"
    by code_simp
  have t: "''hello'' \<in> set (tokenize ''Hello World'')"
    by code_simp
  show ?thesis
    using index_agrees_with_store [of 5 "[Add ''Hello World'' (Some 5)]" "''hello''"] d t
    by blast
qed

text \<open>
  C6 (invariant I2). In every reachable state each key of the inverted index has a
  non-empty posting set, and \<^verbatim>\<open>delete_document\<close> removes the entry of a term whenever
  taking the deleted ID out of its posting set leaves that set empty.
\<close>

theorem no_empty_posting_set:
  "(\<forall>t r. inverted_index (run calls init_engine) t = Some r \<longrightarrow>
      sets (run calls init_engine) r \<noteq> {}) \<and>
   (\<forall>t r d. inverted_index (run calls init_engine) t = Some r \<longrightarrow>
      sets (run calls init_engine) r - {d} = {} \<longrightarrow>
      inverted_index (snd (delete_document d (run calls init_engine))) t = None)"
proof (intro conjI allI impI)
  let ?s = "run calls init_engine"
  have inv: "engine_inv ?s" by (rule reachable_inv)
  then have i1: "I1 ?s" and i2: "I2 ?s" and ok: "heap_ok ?s"
    by (simp_all add: engine_inv_def)
  show "sets ?s r \<noteq> {}" if "inverted_index ?s t = Some r" for t r
    using i2 that by (simp add: I2_def)
  show "inverted_index (snd (delete_document d ?s)) t = None"
    if k: "inverted_index ?s t = Some r" and e: "sets ?s r - {d} = {}" for t r d
  proof -
    have p: "posting ?s t = sets ?s r" using k by (simp add: posting_def)
    have "sets ?s r \<noteq> {}" using i2 k by (simp add: I2_def)
    then have "d \<in> posting ?s t" using e p by auto
    then obtain body where b: "documents ?s d = Some body" and tk: "t \<in> set (tokenize body)"
      using i1 by (auto simp: I1_def)
    have "inverted_index (fold (unindex_token d) (remdups (tokenize body))
             (?s\<lparr>documents := (documents ?s)(d := None)\<rparr>)) t = None"
      using ok tk e p by (simp add: fold_unindex_token_keys)
    then show ?thesis using b by (simp add: delete_document_present)
  qed
qed

text \<open>Both parts at the term \<^verbatim>\<open>hello\<close> of the only document.\<close>

theorem no_empty_posting_set_witness:
  "inverted_index (run [Add ''Hello World'' (Some 5)] init_engine) ''hello'' = Some 0 \<and>
   sets (run [Add ''Hello World'' (Some 5)] init_engine) 0 \<noteq> {} \<and>
   sets (run [Add ''Hello World'' (Some 5)] init_engine) 0 - {5} = {} \<and>
   inverted_index (snd (delete_document 5 (run [Add ''Hello World'' (Some 5)] init_engine))) ''hello'' = None"
proof -
  have k: "inverted_index (run [Add ''Hello World'' (Some 5)] init_engine) ''hello'' = Some 0"
    by code_simp
  have e: "sets (run [Add ''Hello World'' (Some 5)] init_engine) 0 - {5} = {}"
    by code_simp
  show ?thesis
    using no_empty_posting_set [of "[Add ''Hello World'' (Some 5)]"] k e by blast
qed

text \<open>
  C10. In every reachable state every key of the inverted index is a non-empty string of
  the letters a-z; hence a term that is empty or has any other character (a space, a
  digit, an uppercase letter, punctuation) is no key, and its posting set is empty.
\<close>

theorem index_keys_are_tokens:
  "(inverted_index (run calls init_engine) t \<noteq> None \<longrightarrow> t \<noteq> [] \<and> (\<forall>c\<in>set t. is_az c)) \<and>
   (t = [] \<or> (\<exists>c\<in>set t. \<not> is_az c) \<longrightarrow>
      inverted_index (run calls init_engine) t = None \<and> posting (run calls init_engine) t = {})"
proof -
  let ?s = "run calls init_engine"
  have i1: "I1 ?s" and i2: "I2 ?s"
    using reachable_inv [of calls] by (simp_all add: engine_inv_def)
  have k: "t \<noteq> [] \<and> (\<forall>c\<in>set t. is_az c)" if "inverted_index ?s t \<noteq> None"
  proof -
    have "posting ?s t \<noteq> {}" using i2 that by (simp add: I2_posting)
    then obtain d where "d \<in> posting ?s t" by auto
    then obtain body where "t \<in> set (tokenize body)" using i1 by (auto simp: I1_def)
    then show ?thesis using tokenize_az by blast
  qed
  have p: "posting ?s t = {}" if "inverted_index ?s t = None"
    using that by (simp add: posting_def)
  show ?thesis using k p by blast
qed

text \<open>The key \<^verbatim>\<open>hello\<close>, and the two-word term \<^verbatim>\<open>quick brown\<close>, which has a space.\<close>

theorem index_keys_are_tokens_witness:
  "inverted_index (run [Add ''Hello World'' (Some 5)] init_engine) ''hello'' \<noteq> None \<and>
   is_az CHR ''h'' \<and>
   \<not> is_az CHR '' '' \<and>
   inverted_index (run [Add ''Hello World'' (Some 5)] init_engine) ''quick brown'' = None"
proof -
  have k: "inverted_index (run [Add ''Hello World'' (Some 5)] init_engine) ''hello'' \<noteq> None"
    by code_simp
  have sp: "\<not> is_az CHR '' ''"
    by code_simp
  then have n: "\<exists>c\<in>set ''quick brown''. \<not> is_az c"
    by simp
  have "\<forall>c\<in>set ''hello''. is_az c"
    using index_keys_are_tokens [of "[Add ''Hello World'' (Some 5)]" "''hello''"] k by blast
  then have h: "is_az CHR ''h''"
    by simp
  have "inverted_index (run [Add ''Hello World'' (Some 5)] init_engine) ''quick brown'' = None"
    using index_keys_are_tokens [of "[Add ''Hello World'' (Some 5)]" "''quick brown''"] n by blast
  then show ?thesis using k sp h by blast
qed

subsection \<open>Claims about single operations\<close>

text \<open>
  C7. For every engine state and every ID that is no key of the document store,
  \<^verbatim>\<open>delete_document\<close> returns \<^verbatim>\<open>False\<close> and the state after the call is the state before it:
  store, index, set objects and counter.
\<close>

theorem delete_absent_is_noop:
  "doc_id \<notin> dom (documents s) \<Longrightarrow> delete_document doc_id s = (False, s)"
  by (simp add: delete_document_def domIff)

text \<open>Deleting the absent ID 7 from an engine that holds document 5.\<close>

theorem delete_absent_is_noop_witness:
  "7 \<notin> dom (documents (run [Add ''Hello World'' (Some 5)] init_engine)) \<and>
   delete_document 7 (run [Add ''Hello World'' (Some 5)] init_engine) =
     (False, run [Add ''Hello World'' (Some 5)] init_engine)"
proof -
  have "documents (run [Add ''Hello World'' (Some 5)] init_engine) 7 = None"
    by code_simp
  then have h: "7 \<notin> dom (documents (run [Add ''Hello World'' (Some 5)] init_engine))"
    by (simp add: domIff)
  show ?thesis using h delete_absent_is_noop [OF h] by simp
qed

text \<open>
  C9. \<^verbatim>\<open>search\<close> is read-only: in every reachable state and for every query, the document
  store, the inverted index, every posting set (the set object behind every key of the
  index) and the auto-ID counter are the same after the call as before. The set objects
  that \<^verbatim>\<open>search\<close> updates in place are the copy it made and nothing else.
\<close>

theorem search_is_read_only:
  "documents (snd (search q (run calls init_engine))) = documents (run calls init_engine) \<and>
   inverted_index (snd (search q (run calls init_engine))) = inverted_index (run calls init_engine) \<and>
   (\<forall>t. posting (snd (search q (run calls init_engine))) t = posting (run calls init_engine) t) \<and>
   (\<forall>t r. inverted_index (run calls init_engine) t = Some r \<longrightarrow>
      sets (snd (search q (run calls init_engine))) r = sets (run calls init_engine) r) \<and>
   next_doc_id (snd (search q (run calls init_engine))) = next_doc_id (run calls init_engine)"
proof -
  let ?s = "run calls init_engine"
  have ok: "heap_ok ?s" using reachable_inv [of calls] by (simp add: engine_inv_def)
  then have f: "frame (next_ref ?s) ?s (snd (search q ?s))" by (rule search_frame)
  have rb: "refs_below (next_ref ?s) ?s" using ok by (rule heap_ok_refs_below)
  have "posting (snd (search q ?s)) t = posting ?s t" for t
    using rb f by (rule frame_posting)
  moreover have "sets (snd (search q ?s)) r = sets ?s r" if "inverted_index ?s t = Some r" for t r
    using rb f that by (simp add: frame_def refs_below_def)
  ultimately show ?thesis using f by (simp add: frame_def)
qed

text \<open>The set object of \<^verbatim>\<open>hello\<close> across an explicit AND query.\<close>

theorem search_is_read_only_witness:
  "inverted_index (run [Add ''Hello World'' (Some 5)] init_engine) ''hello'' = Some 0 \<and>
   sets (snd (search ''hello AND world'' (run [Add ''Hello World'' (Some 5)] init_engine))) 0 =
     sets (run [Add ''Hello World'' (Some 5)] init_engine) 0"
proof -
  have k: "inverted_index (run [Add ''Hello World'' (Some 5)] init_engine) ''hello'' = Some 0"
    by code_simp
  show ?thesis
    using search_is_read_only [of "''hello AND world''" "[Add ''Hello World'' (Some 5)]"] k
    by blast
qed

text \<open>
  C4. From every reachable state, \<^verbatim>\<open>add_document(T, D)\<close> followed by \<^verbatim>\<open>add_document(T2, D)\<close>
  leaves \<open>T2\<close> stored under \<open>D\<close>, and \<open>D\<close> is in the posting set of a term exactly when the
  term is a token of \<open>T2\<close>: in that of every token of \<open>T2\<close>, and in none that \<open>T\<close> alone
  would have given.
\<close>

theorem readd_replaces:
  "documents (snd (add_document T2 (Some D) (snd (add_document T (Some D) (run calls init_engine))))) D
     = Some T2 \<and>
   (\<forall>t. D \<in> posting (snd (add_document T2 (Some D) (snd (add_document T (Some D) (run calls init_engine))))) t
      \<longleftrightarrow> t \<in> set (tokenize T2))"
proof -
  let ?s1 = "snd (add_document T (Some D) (run calls init_engine))"
  let ?s2 = "snd (add_document T2 (Some D) ?s1)"
  have "engine_inv ?s1" using reachable_inv by (rule add_document_inv)
  then have "engine_inv ?s2" by (rule add_document_inv)
  then have i1: "I1 ?s2" by (simp add: engine_inv_def)
  have d: "documents ?s2 D = Some T2"
    by (simp add: add_document_explicit store_document_documents)
  have "D \<in> posting ?s2 t \<longleftrightarrow> t \<in> set (tokenize T2)" for t
    using i1 d by (simp add: I1_def)
  then show ?thesis using d by simp
qed

text \<open>\<^verbatim>\<open>Hello World\<close> replaced by \<^verbatim>\<open>Hello There\<close> under the ID 5.\<close>

theorem readd_replaces_witness:
  "documents (snd (add_document ''Hello There'' (Some 5)
      (snd (add_document ''Hello World'' (Some 5) (run [] init_engine))))) 5 = Some ''Hello There'' \<and>
   5 \<in> posting (snd (add_document ''Hello There'' (Some 5)
      (snd (add_document ''Hello World'' (Some 5) (run [] init_engine))))) ''there'' \<and>
   5 \<notin> posting (snd (add_document ''Hello There'' (Some 5)
      (snd (add_document ''Hello World'' (Some 5) (run [] init_engine))))) ''world''"
proof -
  have a: "''there'' \<in> set (tokenize ''Hello There'')" by code_simp
  have b: "''world'' \<notin> set (tokenize ''Hello There'')" by code_simp
  show ?thesis
    using readd_replaces [of "''Hello There''" 5 "''Hello World''" "[]"] a b by blast
qed

text \<open>
  C5 (round trip). Immediately after \<^verbatim>\<open>add_document(T, D)\<close> with an explicit ID, on any
  reachable state, \<^verbatim>\<open>search(w)\<close> for a token \<open>w\<close> of \<open>T\<close> returns a mapping with the entry
  \<open>D \<mapsto> T\<close>.
\<close>

theorem add_then_search_finds:
  "w \<in> set (tokenize T) \<Longrightarrow>
     fst (search w (snd (add_document T (Some D) (run calls init_engine)))) D = Some T"
proof -
  assume w: "w \<in> set (tokenize T)"
  let ?s = "snd (add_document T (Some D) (run calls init_engine))"
  have inv: "engine_inv ?s" using reachable_inv by (rule add_document_inv)
  then have i1: "I1 ?s" and ok: "heap_ok ?s" by (simp_all add: engine_inv_def)
  have d: "documents ?s D = Some T"
    by (simp add: add_document_explicit store_document_documents)
  have p: "D \<in> posting ?s w" using i1 d w by (auto simp: I1_def)
  have q: "query_terms w = (AND, [w])"
    using tokenize_az [OF w] by (simp add: query_terms_token)
  have "fst (search w ?s) = documents ?s |` fold_ids AND (posting ?s) [] (posting ?s w)"
    using evaluate_Cons(2) [OF heap_ok_refs_below [OF ok], of AND w "[]"]
    by (simp add: search_def q)
  then show ?thesis using p d by (simp add: fold_ids_def)
qed

text \<open>Scenario 5 of the specification, searched for \<^verbatim>\<open>world\<close>.\<close>

theorem add_then_search_finds_witness:
  "''world'' \<in> set (tokenize ''Hello World'') \<and>
   fst (search ''world'' (snd (add_document ''Hello World'' (Some 5) (run [] init_engine)))) 5
     = Some ''Hello World''"
proof -
  have h: "''world'' \<in> set (tokenize ''Hello World'')" by code_simp
  show ?thesis using h add_then_search_finds [OF h, of 5 "[]"] by simp
qed

text \<open>
  C8. In every reachable state and for every list of terms, the document IDs that the
  evaluation under AND returns are among those that the evaluation under OR returns for
  the same terms; the two results agree on their common entries.
\<close>

theorem and_within_or:
  "dom (fst (evaluate AND terms (run calls init_engine)))
     \<subseteq> dom (fst (evaluate OR terms (run calls init_engine))) \<and>
   fst (evaluate AND terms (run calls init_engine))
     \<subseteq>\<^sub>m fst (evaluate OR terms (run calls init_engine))"
proof (cases terms)
  case Nil
  then show ?thesis by (simp add: evaluate_Nil)
next
  case (Cons first_term rest)
  let ?s = "run calls init_engine"
  have rb: "refs_below (next_ref ?s) ?s"
    using reachable_inv [of calls] by (simp add: engine_inv_def heap_ok_refs_below)
  let ?A = "fold_ids AND (posting ?s) rest (posting ?s first_term)"
  let ?O = "fold_ids OR (posting ?s) rest (posting ?s first_term)"
  have a: "fst (evaluate AND terms ?s) = documents ?s |` ?A"
    unfolding Cons using rb by (rule evaluate_Cons(2))
  have o: "fst (evaluate OR terms ?s) = documents ?s |` ?O"
    unfolding Cons using rb by (rule evaluate_Cons(2))
  have sub: "?A \<subseteq> ?O"
    using fold_ids_AND_subset [of "posting ?s" rest "posting ?s first_term"]
      fold_ids_OR_superset [of "posting ?s first_term" "posting ?s" rest]
    by (rule subset_trans)
  show ?thesis
    unfolding a o using sub by (auto simp: map_le_def restrict_map_def dom_def split: if_splits)
qed

subsection \<open>Claims about the reading of the query\<close>

text \<open>
  C1, as the code has it. When \<^verbatim>\<open>" AND "\<close> occurs in the trimmed, uppercased query,
  \<^verbatim>\<open>search\<close> splits that trimmed, uppercased query (not the original one) at the separator
  and evaluates under AND the segments, each trimmed and lowercased and taken as one
  term, with no tokenizing; likewise under OR when \<^verbatim>\<open>" OR "\<close> occurs and \<^verbatim>\<open>" AND "\<close> does
  not. The segments are those of the split: joined by the separator they give the
  trimmed, uppercased query back.
\<close>

theorem explicit_operator_terms:
  "(contains '' AND '' (upper (strip q)) \<longrightarrow>
      search q s =
        evaluate AND (map (\<lambda>seg. lower (strip seg)) (split_sep '' AND '' (upper (strip q)))) s \<and>
      join '' AND '' (split_sep '' AND '' (upper (strip q))) = upper (strip q)) \<and>
   (\<not> contains '' AND '' (upper (strip q)) \<and> contains '' OR '' (upper (strip q)) \<longrightarrow>
      search q s =
        evaluate OR (map (\<lambda>seg. lower (strip seg)) (split_sep '' OR '' (upper (strip q)))) s \<and>
      join '' OR '' (split_sep '' OR '' (upper (strip q))) = upper (strip q))"
  by (simp add: search_def query_terms_def Let_def join_split_sep)

text \<open>
  The two cases at queries with a lowercase operator; the segment \<^verbatim>\<open>quick brown\<close> stays
  one term.
\<close>

theorem explicit_operator_terms_witness:
  "contains '' AND '' (upper (strip ''quick brown and fox'')) \<and>
   search ''quick brown and fox'' init_engine = evaluate AND [''quick brown'', ''fox''] init_engine \<and>
   \<not> contains '' AND '' (upper (strip ''dog or cat'')) \<and>
   contains '' OR '' (upper (strip ''dog or cat'')) \<and>
   search ''dog or cat'' init_engine = evaluate OR [''dog'', ''cat''] init_engine"
proof -
  have a: "contains '' AND '' (upper (strip ''quick brown and fox''))" by code_simp
  have ta: "map (\<lambda>seg. lower (strip seg)) (split_sep '' AND '' (upper (strip ''quick brown and fox'')))
      = [''quick brown'', ''fox'']" by code_simp
  have na: "\<not> contains '' AND '' (upper (strip ''dog or cat''))" by code_simp
  have o: "contains '' OR '' (upper (strip ''dog or cat''))" by code_simp
  have tb: "map (\<lambda>seg. lower (strip seg)) (split_sep '' OR '' (upper (strip ''dog or cat'')))
      = [''dog'', ''cat'']" by code_simp
  show ?thesis
    using explicit_operator_terms [of "''quick brown and fox''" init_engine]
      explicit_operator_terms [of "''dog or cat''" init_engine] a na o
    unfolding ta tb by blast
qed

text \<open>
  The query \<^verbatim>\<open>dog and cat\<close>: the code yields the two terms \<^verbatim>\<open>dog\<close> and \<^verbatim>\<open>cat\<close>, where
  splitting the original query would yield the single term \<^verbatim>\<open>dog and cat\<close>.
\<close>

theorem explicit_operator_terms_counterexample:
  "query_terms ''dog and cat'' = (AND, [''dog'', ''cat'']) \<and>
   spec_query_terms ''dog and cat'' = (AND, [''dog and cat'']) \<and>
   query_terms ''dog and cat'' \<noteq> spec_query_terms ''dog and cat''"
  by code_simp

subsection \<open>Claims about the auto-ID counter\<close>

text \<open>
  C2, as the code has it. After every sequence of \<^verbatim>\<open>add_document\<close>, \<^verbatim>\<open>delete_document\<close>
  and \<^verbatim>\<open>search\<close> calls on a fresh engine, the ID that \<^verbatim>\<open>add_document\<close> assigns by itself
  is no key of the document store at the moment of the assignment, unless that same ID
  was passed explicitly to an earlier \<^verbatim>\<open>add_document\<close> call of the sequence.
\<close>

theorem auto_id_is_fresh:
  "fst (add_document body None (run calls init_engine)) \<notin> set (explicit_ids calls) \<Longrightarrow>
     fst (add_document body None (run calls init_engine))
       \<notin> dom (documents (run calls init_engine))"
proof -
  let ?s = "run calls init_engine"
  assume "fst (add_document body None ?s) \<notin> set (explicit_ids calls)"
  then have e: "next_doc_id ?s \<notin> set (explicit_ids calls)"
    by (simp add: add_document_auto)
  have k0: "keys_accounted {} init_engine"
    by (simp add: keys_accounted_def init_engine_def)
  have "keys_accounted ({} \<union> set (explicit_ids calls)) ?s"
    using inv_init k0 by (rule run_keys_accounted)
  then have "documents ?s (next_doc_id ?s) = None"
    using e by (auto simp: keys_accounted_def)
  then show ?thesis by (simp add: add_document_auto domIff)
qed

text \<open>
  Explicit IDs above the counter, as in the example run of the source, and one document
  without an ID: the next ID assigned is 1, which was never passed.
\<close>

theorem auto_id_is_fresh_witness:
  "fst (add_document ''d'' None (run [Add ''a'' (Some 5), Add ''b'' None, Add ''c'' (Some 4)] init_engine))
     \<notin> set (explicit_ids [Add ''a'' (Some 5), Add ''b'' None, Add ''c'' (Some 4)]) \<and>
   fst (add_document ''d'' None (run [Add ''a'' (Some 5), Add ''b'' None, Add ''c'' (Some 4)] init_engine))
     \<notin> dom (documents (run [Add ''a'' (Some 5), Add ''b'' None, Add ''c'' (Some 4)] init_engine))"
proof -
  have h: "fst (add_document ''d'' None (run [Add ''a'' (Some 5), Add ''b'' None, Add ''c'' (Some 4)] init_engine))
      \<notin> set (explicit_ids [Add ''a'' (Some 5), Add ''b'' None, Add ''c'' (Some 4)])"
    by code_simp
  show ?thesis using h auto_id_is_fresh [OF h] by simp
qed

text \<open>
  After \<^verbatim>\<open>add_document("first", doc_id=0)\<close> on a fresh engine the counter is still 0: the
  ID assigned to the next document without an ID is the key of the first one.
\<close>

theorem auto_id_collides_counterexample:
  "fst (add_document ''second'' None (run [Add ''first'' (Some 0)] init_engine))
     \<in> dom (documents (run [Add ''first'' (Some 0)] init_engine))"
proof -
  have i: "fst (add_document ''second'' None (run [Add ''first'' (Some 0)] init_engine)) = 0"
    by code_simp
  have d: "documents (run [Add ''first'' (Some 0)] init_engine) 0 = Some ''first''"
    by code_simp
  show ?thesis unfolding i using d by (simp add: domIff)
qed

end
